theory Spec2Isabelle
  imports Main "HOL-Library.Word" "HOL-Library.Signed_Division"
begin

section \<open>Bytes, errors and files\<close>

text \<open>
  The converter \<^verbatim>\<open>text_to_audio_converter.py\<close> works on Python \<^verbatim>\<open>bytes\<close>: a byte is an
  8-bit word, read as the integer \<open>uint b\<close> (0..255) where the code iterates over a
  bytes object. Python's integers are unbounded: they are \<open>int\<close>.
  An exception that leaves a function is a value of \<open>error\<close>.
\<close>

type_synonym byte = "8 word"
type_synonym bytes = "byte list"

datatype error =
    StructError         \<comment> \<open>\<^verbatim>\<open>struct.error\<close>: a value outside the format's range\<close>
  | BinasciiError       \<comment> \<open>\<^verbatim>\<open>binascii.Error\<close>, raised by \<^verbatim>\<open>base64.b64decode\<close>\<close>
  | WaveError           \<comment> \<open>\<^verbatim>\<open>wave.Error\<close>, raised by the WAV writer\<close>
  | ValueError          \<comment> \<open>\<^verbatim>\<open>bytes(values)\<close> with an element outside \<^verbatim>\<open>range(256)\<close>\<close>
  | UnboundLocalError   \<comment> \<open>a local variable read before any assignment\<close>

text \<open>
  The WAV container belongs to Python's \<^verbatim>\<open>wave\<close> module. A WAV file is represented by
  what that module's reader returns for it: the format parameters and the bytes of the
  data chunk. Any other file is its bytes.
\<close>

record wav =
  nchannels :: nat
  sampwidth :: nat
  framerate :: nat
  frames :: bytes

datatype file_content = RawFile bytes | WavFile wav

type_synonym fs = "string \<rightharpoonup> file_content"

definition getnframes :: "wav \<Rightarrow> nat" where
  "getnframes w = length (frames w) div (nchannels w * sampwidth w)"

definition readframes :: "wav \<Rightarrow> nat \<Rightarrow> bytes" where
  "readframes w n = take (n * (nchannels w * sampwidth w)) (frames w)"

section \<open>The library calls: struct, bytes, base64\<close>

subsection \<open>\<^verbatim>\<open>struct.pack\<close> and \<^verbatim>\<open>struct.unpack\<close>\<close>

text \<open>
  Formats \<^verbatim>\<open>'B'\<close> (unsigned byte), \<^verbatim>\<open>'<h'\<close> (signed 16 bits, little endian) and
  \<^verbatim>\<open>'<i'\<close> (signed 32 bits, little endian). Packing a value outside the format's range
  raises \<^verbatim>\<open>struct.error\<close>.
\<close>

definition pack_B :: "int \<Rightarrow> error + bytes" where
  "pack_B v = (if 0 \<le> v \<and> v \<le> 255 then Inr [word_of_int v] else Inl StructError)"

definition pack_h :: "int \<Rightarrow> error + bytes" where
  "pack_h v =
     (if - 32768 \<le> v \<and> v \<le> 32767
      then Inr [word_of_int v, word_of_int (v div 256)]
      else Inl StructError)"

definition pack_i :: "int \<Rightarrow> error + bytes" where
  "pack_i v =
     (if - 2147483648 \<le> v \<and> v \<le> 2147483647
      then Inr [word_of_int v, word_of_int (v div 256),
                word_of_int (v div 65536), word_of_int (v div 16777216)]
      else Inl StructError)"

definition unpack_B :: "byte \<Rightarrow> int" where
  "unpack_B b0 = uint b0"

definition unpack_h :: "byte \<Rightarrow> byte \<Rightarrow> int" where
  "unpack_h b0 b1 =
     (let u = uint b0 + 256 * uint b1 in if u < 32768 then u else u - 65536)"

definition unpack_i :: "byte \<Rightarrow> byte \<Rightarrow> byte \<Rightarrow> byte \<Rightarrow> int" where
  "unpack_i b0 b1 b2 b3 =
     (let u = uint b0 + 256 * uint b1 + 65536 * uint b2 + 16777216 * uint b3
      in if u < 2147483648 then u else u - 4294967296)"

subsection \<open>\<^verbatim>\<open>bytes(values)\<close>, \<^verbatim>\<open>in\<close>, \<^verbatim>\<open>find\<close> and slicing\<close>

definition py_bytes :: "int list \<Rightarrow> error + bytes" where
  "py_bytes vs =
     (if list_all (\<lambda>v. 0 \<le> v \<and> v < 256) vs then Inr (map word_of_int vs)
      else Inl ValueError)"

fun bytes_in :: "bytes \<Rightarrow> bytes \<Rightarrow> bool" where
  "bytes_in sub [] = (sub = [])"
| "bytes_in sub (y # ys) = (take (length sub) (y # ys) = sub \<or> bytes_in sub ys)"

text \<open>\<^verbatim>\<open>s.find(sub)\<close>: the lowest index where \<open>sub\<close> starts, or \<open>-1\<close>.\<close>

fun bytes_find_from :: "bytes \<Rightarrow> bytes \<Rightarrow> int \<Rightarrow> int" where
  "bytes_find_from sub [] i = (if sub = [] then i else - 1)"
| "bytes_find_from sub (y # ys) i =
     (if take (length sub) (y # ys) = sub then i else bytes_find_from sub ys (i + 1))"

definition bytes_find :: "bytes \<Rightarrow> bytes \<Rightarrow> int" where
  "bytes_find sub s = bytes_find_from sub s 0"

text \<open>\<^verbatim>\<open>s[k:]\<close>: a negative \<open>k\<close> counts from the end.\<close>

definition slice_from :: "bytes \<Rightarrow> int \<Rightarrow> bytes" where
  "slice_from s k = (if k < 0 then drop (nat (int (length s) + k)) s else drop (nat k) s)"

subsection \<open>\<^verbatim>\<open>base64.b64encode\<close> and \<^verbatim>\<open>base64.b64decode\<close>\<close>

text \<open>
  The standard alphabet \<^verbatim>\<open>A-Z a-z 0-9 + /\<close> with the pad \<^verbatim>\<open>=\<close> (61). Three bytes give
  four characters of six bits each, the 24 bits cut from the most significant end; a last
  group of one or two bytes is filled with zero bits and padded.
\<close>

definition b2a_char :: "nat \<Rightarrow> byte" where
  "b2a_char s =
     of_nat (if s < 26 then s + 65 else if s < 52 then s + 71
             else if s < 62 then s - 4 else if s = 62 then 43 else 47)"

fun b64encode :: "bytes \<Rightarrow> bytes" where
  "b64encode (a # b # c # rest) =
     [b2a_char (unat a div 4), b2a_char (unat a mod 4 * 16 + unat b div 16),
      b2a_char (unat b mod 16 * 4 + unat c div 64), b2a_char (unat c mod 64)] @ b64encode rest"
| "b64encode [a, b] =
     [b2a_char (unat a div 4), b2a_char (unat a mod 4 * 16 + unat b div 16),
      b2a_char (unat b mod 16 * 4), 61]"
| "b64encode [a] = [b2a_char (unat a div 4), b2a_char (unat a mod 4 * 16), 61, 61]"
| "b64encode [] = []"

text \<open>
  \<^verbatim>\<open>b64decode(s)\<close> with its default \<^verbatim>\<open>validate=False\<close> is the lenient decoder of
  \<^verbatim>\<open>binascii.a2b_base64\<close> (CPython 3.11): a byte outside the alphabet is skipped; a pad
  ends the input once it completes a group that holds at least two characters, and is
  skipped otherwise; at the end of the input an unfinished group is an error.
  \<open>a2b_char\<close> is the decoding table, \<open>None\<close> for a byte outside the alphabet.
\<close>

definition a2b_char :: "byte \<Rightarrow> nat option" where
  "a2b_char c =
     (let k = unat c in
      if 65 \<le> k \<and> k \<le> 90 then Some (k - 65)
      else if 97 \<le> k \<and> k \<le> 122 then Some (k - 71)
      else if 48 \<le> k \<and> k \<le> 57 then Some (k + 4)
      else if k = 43 then Some 62
      else if k = 47 then Some 63
      else None)"

fun a2b_loop :: "bytes \<Rightarrow> nat \<Rightarrow> nat \<Rightarrow> nat \<Rightarrow> bytes \<Rightarrow> error + bytes" where
  "a2b_loop [] quad_pos leftchar pads out =
     (if quad_pos = 0 then Inr out else Inl BinasciiError)"
| "a2b_loop (c # cs) quad_pos leftchar pads out =
     (if c = 61 then
        (if 2 \<le> quad_pos then
           (if 4 \<le> quad_pos + (pads + 1) then Inr out
            else a2b_loop cs quad_pos leftchar (pads + 1) out)
         else a2b_loop cs quad_pos leftchar pads out)
      else
        (case a2b_char c of
           None \<Rightarrow> a2b_loop cs quad_pos leftchar pads out
         | Some v \<Rightarrow>
             (if quad_pos = 0 then a2b_loop cs 1 v 0 out
              else if quad_pos = 1 then
                a2b_loop cs 2 (v mod 16) 0 (out @ [of_nat (leftchar * 4 + v div 16)])
              else if quad_pos = 2 then
                a2b_loop cs 3 (v mod 4) 0 (out @ [of_nat (leftchar * 16 + v div 4)])
              else a2b_loop cs 0 0 0 (out @ [of_nat (leftchar * 64 + v)]))))"

definition b64decode :: "bytes \<Rightarrow> error + bytes" where
  "b64decode s = a2b_loop s 0 0 0 []"

section \<open>The converter\<close>

definition header :: bytes where
  "header = map of_char ''ENCODED_TEXT:''"

subsection \<open>\<^verbatim>\<open>text_to_wav\<close>\<close>

text \<open>
  The loop over \<^verbatim>\<open>data_with_header\<close>: each byte is packed for the bit depth and handed to
  \<^verbatim>\<open>writeframes\<close>; \<open>written\<close> is the data written so far. A depth other than 8, 16 and 32
  matches no branch and writes nothing. The result holds the exception that ended the
  loop, if any.
\<close>

fun write_samples :: "int \<Rightarrow> bytes \<Rightarrow> bytes \<Rightarrow> error option \<times> bytes" where
  "write_samples bits_per_sample [] written = (None, written)"
| "write_samples bits_per_sample (byte # rest) written =
     (if bits_per_sample = 8 then
        (case pack_B (uint byte) of
           Inl e \<Rightarrow> (Some e, written)
         | Inr fr \<Rightarrow> write_samples bits_per_sample rest (written @ fr))
      else if bits_per_sample = 16 then
        (case pack_h ((uint byte - 128) * 256) of
           Inl e \<Rightarrow> (Some e, written)
         | Inr fr \<Rightarrow> write_samples bits_per_sample rest (written @ fr))
      else if bits_per_sample = 32 then
        (case pack_i ((uint byte - 128) * 16777216) of
           Inl e \<Rightarrow> (Some e, written)
         | Inr fr \<Rightarrow> write_samples bits_per_sample rest (written @ fr))
      else write_samples bits_per_sample rest written)"

text \<open>
  \<open>text_data\<close> is what reading the input file returned. \<^verbatim>\<open>wave.open(wav_file, 'w')\<close>
  creates the output file, empty. \<^verbatim>\<open>setsampwidth\<close> raises \<^verbatim>\<open>wave.Error\<close> unless the
  width is 1 to 4, and the file stays empty. Otherwise closing the writer leaves a WAV
  file holding the data written, also when the loop ended with an exception.
  The result is the exception that left the function, if any, and the files afterwards.
  The three messages printed after the WAV file is closed change no file and are left out.
\<close>

definition text_to_wav :: "bytes \<Rightarrow> string \<Rightarrow> int \<Rightarrow> fs \<Rightarrow> error option \<times> fs" where
  "text_to_wav text_data wav_file bits_per_sample fs =
     (let encoded_data = b64encode text_data;
          data_with_header = header @ encoded_data;
          num_channels = 1;
          sample_rate = 44100;
          width = bits_per_sample div 8
      in if width < 1 \<or> 4 < width then (Some WaveError, fs(wav_file \<mapsto> RawFile []))
         else
           (case write_samples bits_per_sample data_with_header [] of
              (exc, written) \<Rightarrow>
                (exc, fs(wav_file \<mapsto> WavFile \<lparr>nchannels = num_channels, sampwidth = nat width,
                                              framerate = sample_rate, frames = written\<rparr>))))"

subsection \<open>\<^verbatim>\<open>wav_to_text\<close>\<close>

text \<open>
  The three unpacking loops. The index steps by the sample width over \<^verbatim>\<open>raw_data\<close>; a
  last slice shorter than the width is skipped by the guard \<^verbatim>\<open>i+2 <= len(raw_data)\<close>
  (\<^verbatim>\<open>i+4\<close> for width 4). \<^verbatim>\<open>//\<close> is Python's floor division, which is \<open>div\<close> on \<open>int\<close>.
\<close>

fun values_1 :: "bytes \<Rightarrow> int list" where
  "values_1 [] = []"
| "values_1 (b0 # raw) = unpack_B b0 # values_1 raw"

fun values_2 :: "bytes \<Rightarrow> int list" where
  "values_2 (b0 # b1 # raw) =
     min 255 (max 0 (unpack_h b0 b1 div 256 + 128)) # values_2 raw"
| "values_2 raw = []"

fun values_4 :: "bytes \<Rightarrow> int list" where
  "values_4 (b0 # b1 # b2 # b3 # raw) =
     min 255 (max 0 (unpack_i b0 b1 b2 b3 div 16777216 + 128)) # values_4 raw"
| "values_4 raw = []"

text \<open>
  \<^verbatim>\<open>decoded_bytes\<close> is assigned in the branches for widths 1, 2 and 4 only; for any other
  width, reading it in \<^verbatim>\<open>header in decoded_bytes\<close> raises \<^verbatim>\<open>UnboundLocalError\<close>.
\<close>

definition decoded_bytes :: "nat \<Rightarrow> bytes \<Rightarrow> error + bytes" where
  "decoded_bytes sample_width raw_data =
     (if sample_width = 1 then py_bytes (values_1 raw_data)
      else if sample_width = 2 then py_bytes (values_2 raw_data)
      else if sample_width = 4 then py_bytes (values_4 raw_data)
      else Inl UnboundLocalError)"

text \<open>What \<^verbatim>\<open>wav_to_text\<close> prints before it returns.\<close>

datatype report =
    Successfully_converted     \<comment> \<open>the output file was written\<close>
  | Error_decoding_data        \<comment> \<open>the \<^verbatim>\<open>except\<close> branch: the spec's CorruptPayload\<close>
  | No_encoded_text_data       \<comment> \<open>the header is absent: the spec's NotEncoded\<close>

text \<open>
  \<open>w\<close> is the WAV file as \<^verbatim>\<open>wave.open(wav_file, 'r')\<close> delivers it. The result is the
  exception that left the function or the message printed, and the files afterwards.
\<close>

definition wav_to_text :: "wav \<Rightarrow> string \<Rightarrow> fs \<Rightarrow> (error + report) \<times> fs" where
  "wav_to_text w output_text_file fs =
     (let num_channels = nchannels w;
          sample_width = sampwidth w;
          num_frames = getnframes w;
          raw_data = readframes w num_frames
      in case decoded_bytes sample_width raw_data of
           Inl e \<Rightarrow> (Inl e, fs)
         | Inr decoded \<Rightarrow>
             if bytes_in header decoded then
               (let start_idx = bytes_find header decoded + int (length header);
                    encoded_data = slice_from decoded start_idx
                in case b64decode encoded_data of
                     Inl e \<Rightarrow> (Inr Error_decoding_data, fs)
                   | Inr original_data \<Rightarrow>
                       (Inr Successfully_converted,
                        fs(output_text_file \<mapsto> RawFile original_data)))
             else (Inr No_encoded_text_data, fs))"

section \<open>The specification's wording\<close>

text \<open>
  Two notions that the specification uses and the code does not. They are written from
  the specification's words, to be compared with what the code computes.

  The inverse scaling ``\<open>clamp(0, 255, sample \<div> divisor + 128)\<close>, using integer
  (truncating) division'': \<open>sdiv\<close> is the division that truncates toward zero.
\<close>

definition truncating_inverse_scale :: "int \<Rightarrow> int \<Rightarrow> int" where
  "truncating_inverse_scale divisor sample = min 255 (max 0 (sample sdiv divisor + 128))"

text \<open>
  ``Standard base64 text (no line wrapping)'', as RFC 4648 defines it: groups of four
  characters of the alphabet, the last group possibly ending in one or two pads.
\<close>

definition in_alphabet :: "byte \<Rightarrow> bool" where
  "in_alphabet c = (case a2b_char c of None \<Rightarrow> False | Some v \<Rightarrow> True)"

fun rfc4648_base64 :: "bytes \<Rightarrow> bool" where
  "rfc4648_base64 [] = True"
| "rfc4648_base64 [c1, c2, c3, c4] =
     (in_alphabet c1 \<and> in_alphabet c2 \<and>
      (in_alphabet c3 \<and> (in_alphabet c4 \<or> c4 = 61) \<or> c3 = 61 \<and> c4 = 61))"
| "rfc4648_base64 (c1 # c2 # c3 # c4 # rest) =
     (in_alphabet c1 \<and> in_alphabet c2 \<and> in_alphabet c3 \<and> in_alphabet c4 \<and>
      rfc4648_base64 rest)"
| "rfc4648_base64 s = False"

section \<open>The inputs that the lenient decoder rejects\<close>

text \<open>
  What \<^verbatim>\<open>b64decode\<close> rejects, told from its input alone. An alphabet character fills
  the current group of four: \<open>group_fill t\<close> is the number of characters that the
  unfinished group holds after the bytes \<open>t\<close>. A pad that comes after \<open>t\<close> closes the group
  when the group holds three characters, or holds two and another pad has come since the
  last alphabet character. Decoding ends at the first pad that closes a group, whatever
  follows it. The input is rejected when no pad closes a group and the last group is
  left unfinished. Every other byte is passed over.
\<close>

definition group_fill :: "bytes \<Rightarrow> nat" where
  "group_fill t = length (filter in_alphabet t) mod 4"

definition trailing_pad :: "bytes \<Rightarrow> bool" where
  "trailing_pad t = (61 \<in> set (takeWhile (\<lambda>c. \<not> in_alphabet c) (rev t)))"

definition pad_closes :: "bytes \<Rightarrow> bool" where
  "pad_closes t = (group_fill t = 3 \<or> group_fill t = 2 \<and> trailing_pad t)"

definition lenient_rejects :: "bytes \<Rightarrow> bool" where
  "lenient_rejects s =
     (\<not> list_ex (\<lambda>i. s ! i = 61 \<and> pad_closes (take i s)) [0..<length s] \<and>
      group_fill s \<noteq> 0)"

section \<open>Sample scaling\<close>

subsection \<open>Packing and unpacking are inverse\<close>

lemma split16: "(v::int) mod 256 + 256 * (v div 256 mod 256) = v mod 65536"
proof -
  have "v mod 65536 = v mod (256 * 256)" by simp
  also have "\<dots> = 256 * (v div 256 mod 256) + v mod 256"
    by (rule zmod_zmult2_eq) simp
  finally show ?thesis by simp
qed

lemma unpack_h_pack:
  assumes "- 32768 \<le> v" "v \<le> 32767"
  shows "unpack_h (word_of_int v) (word_of_int (v div 256)) = v"
proof -
  have u: "uint (word_of_int v :: byte) + 256 * uint (word_of_int (v div 256) :: byte) = v mod 65536"
    by (simp add: uint_word_of_int split16)
  show ?thesis
  proof (cases "0 \<le> v")
    case True
    then have "v mod 65536 = v" using assms by simp
    then show ?thesis using u assms by (simp add: unpack_h_def Let_def)
  next
    case False
    then have "(v + 65536) mod 65536 = v + 65536" using assms
      by (intro mod_pos_pos_trivial) simp_all
    then have "v mod 65536 = v + 65536" by simp
    then show ?thesis using u assms False by (simp add: unpack_h_def Let_def)
  qed
qed

lemma split32: "(v::int) mod 256 + 256 * (v div 256 mod 256) + 65536 * (v div 65536 mod 256) + 16777216 * (v div 16777216 mod 256) = v mod 4294967296"
proof -
  have a: "v mod 4294967296 = v mod (65536 * 65536)" by simp
  have b: "v mod (65536 * 65536) = 65536 * (v div 65536 mod 65536) + v mod 65536"
    by (rule zmod_zmult2_eq) simp
  have c: "v div 65536 div 256 = v div 16777216"
    by (simp add: div_mult2_eq[symmetric])
  have d: "(v div 65536) mod 65536 = (v div 65536) mod 256 + 256 * (v div 16777216 mod 256)"
    using split16[of "v div 65536"] c by simp
  show ?thesis using a b d split16[of v] by simp
qed

lemma unpack_i_pack:
  assumes "- 2147483648 \<le> v" "v \<le> 2147483647"
  shows "unpack_i (word_of_int v) (word_of_int (v div 256)) (word_of_int (v div 65536)) (word_of_int (v div 16777216)) = v"
proof -
  have u: "uint (word_of_int v :: byte) + 256 * uint (word_of_int (v div 256) :: byte)
      + 65536 * uint (word_of_int (v div 65536) :: byte) + 16777216 * uint (word_of_int (v div 16777216) :: byte) = v mod 4294967296"
    by (simp add: uint_word_of_int split32)
  show ?thesis
  proof (cases "0 \<le> v")
    case True
    then have "v mod 4294967296 = v" using assms by simp
    then show ?thesis using u assms by (simp add: unpack_i_def Let_def)
  next
    case False
    then have "(v + 4294967296) mod 4294967296 = v + 4294967296" using assms
      by (intro mod_pos_pos_trivial) simp_all
    then have "v mod 4294967296 = v + 4294967296" by simp
    then show ?thesis using u assms False by (simp add: unpack_i_def Let_def)
  qed
qed

lemma uint_byte_range: "0 \<le> uint (b::byte) \<and> uint b < 256"
  using uint_bounded[of b] by simp

lemma scale16_value:
  "min 255 (max 0 ((uint (b::byte) - 128) * 256 div 256 + 128)) = uint b"
  using uint_byte_range[of b] by simp

lemma scale32_value:
  "min 255 (max 0 ((uint (b::byte) - 128) * 16777216 div 16777216 + 128)) = uint b"
  using uint_byte_range[of b] by simp

lemma pack_h_scaled:
  "pack_h ((uint (b::byte) - 128) * 256) =
     Inr [word_of_int ((uint b - 128) * 256), word_of_int ((uint b - 128) * 256 div 256)]"
  using uint_byte_range[of b] by (simp add: pack_h_def)

lemma pack_i_scaled:
  "pack_i ((uint (b::byte) - 128) * 16777216) =
     Inr [word_of_int ((uint b - 128) * 16777216), word_of_int ((uint b - 128) * 16777216 div 256),
          word_of_int ((uint b - 128) * 16777216 div 65536),
          word_of_int ((uint b - 128) * 16777216 div 16777216)]"
  using uint_byte_range[of b] by (simp add: pack_i_def)

lemma py_bytes_uint: "py_bytes (map uint (xs::bytes)) = Inr xs"
proof -
  have "list_all (\<lambda>v. 0 \<le> v \<and> v < 256) (map uint xs)"
    using uint_byte_range by (simp add: list_all_iff)
  moreover have "map word_of_int (map uint xs) = xs"
    by (simp add: map_idI)
  ultimately show ?thesis by (simp add: py_bytes_def)
qed


lemma values_2_scaled:
  "values_2 (word_of_int ((uint (b::byte) - 128) * 256) #
             word_of_int ((uint b - 128) * 256 div 256) # raw) = uint b # values_2 raw"
proof -
  have "- 32768 \<le> (uint b - 128) * 256" "(uint b - 128) * 256 \<le> 32767"
    using uint_byte_range[of b] by simp_all
  then have "unpack_h (word_of_int ((uint b - 128) * 256))
               (word_of_int ((uint b - 128) * 256 div 256)) = (uint b - 128) * 256"
    by (rule unpack_h_pack)
  then show ?thesis using scale16_value[of b] by simp
qed

lemma values_4_scaled:
  "values_4 (word_of_int ((uint (b::byte) - 128) * 16777216) #
             word_of_int ((uint b - 128) * 16777216 div 256) #
             word_of_int ((uint b - 128) * 16777216 div 65536) #
             word_of_int ((uint b - 128) * 16777216 div 16777216) # raw) = uint b # values_4 raw"
proof -
  have "- 2147483648 \<le> (uint b - 128) * 16777216" "(uint b - 128) * 16777216 \<le> 2147483647"
    using uint_byte_range[of b] by simp_all
  then have "unpack_i (word_of_int ((uint b - 128) * 16777216))
               (word_of_int ((uint b - 128) * 16777216 div 256))
               (word_of_int ((uint b - 128) * 16777216 div 65536))
               (word_of_int ((uint b - 128) * 16777216 div 16777216)) = (uint b - 128) * 16777216"
    by (rule unpack_i_pack)
  then show ?thesis using scale32_value[of b] by simp
qed

lemma values_1_uint: "values_1 raw = map uint raw"
  by (induction raw) (simp_all add: unpack_B_def)

lemma write_samples_8:
  "write_samples 8 xs written = (None, written @ xs)"
proof (induction xs arbitrary: written)
  case Nil
  show ?case by simp
next
  case (Cons b xs)
  have "pack_B (uint b) = Inr [b]"
    using uint_byte_range[of b] by (simp add: pack_B_def)
  then show ?case using Cons.IH[of "written @ [b]"] by simp
qed

lemma write_samples_16:
  "\<exists>fr. write_samples 16 xs written = (None, written @ fr) \<and>
        values_2 fr = map uint xs \<and> length fr = 2 * length xs"
proof (induction xs arbitrary: written)
  case Nil
  show ?case by simp
next
  case (Cons b xs)
  let ?f = "[word_of_int ((uint b - 128) * 256), word_of_int ((uint b - 128) * 256 div 256)] :: bytes"
  obtain fr where fr: "write_samples 16 xs (written @ ?f) = (None, (written @ ?f) @ fr)"
     "values_2 fr = map uint xs" "length fr = 2 * length xs"
    using Cons.IH[of "written @ ?f"] by blast
  have w: "write_samples 16 (b # xs) written = (None, written @ (?f @ fr))"
    using fr(1) pack_h_scaled[of b] by simp
  have v: "values_2 (?f @ fr) = map uint (b # xs)"
    using values_2_scaled[of b fr] fr(2) by simp
  have l: "length (?f @ fr) = 2 * length (b # xs)" using fr(3) by simp
  from w v l show ?case by blast
qed

lemma write_samples_32:
  "\<exists>fr. write_samples 32 xs written = (None, written @ fr) \<and>
        values_4 fr = map uint xs \<and> length fr = 4 * length xs"
proof (induction xs arbitrary: written)
  case Nil
  show ?case by simp
next
  case (Cons b xs)
  let ?f = "[word_of_int ((uint b - 128) * 16777216),
             word_of_int ((uint b - 128) * 16777216 div 256),
             word_of_int ((uint b - 128) * 16777216 div 65536),
             word_of_int ((uint b - 128) * 16777216 div 16777216)] :: bytes"
  obtain fr where fr: "write_samples 32 xs (written @ ?f) = (None, (written @ ?f) @ fr)"
     "values_4 fr = map uint xs" "length fr = 4 * length xs"
    using Cons.IH[of "written @ ?f"] by blast
  have w: "write_samples 32 (b # xs) written = (None, written @ (?f @ fr))"
    using fr(1) pack_i_scaled[of b] by simp
  have v: "values_4 (?f @ fr) = map uint (b # xs)"
    using values_4_scaled[of b fr] fr(2) by simp
  have l: "length (?f @ fr) = 4 * length (b # xs)" using fr(3) by simp
  from w v l show ?case by blast
qed

text \<open>
  Claim C2. For every byte \<open>b\<close> and each depth 8, 16 and 32, the encoder's loop writes
  the packed sample of \<open>b\<close> without an exception and the decoder's inverse scaling of
  that sample is \<open>b\<close> again. In particular \<open>((b - 128) * 16777216) // 16777216 + 128 = b\<close>
  for all 256 byte values: the 32-bit scaling loses nothing.
\<close>

theorem scaling_inverse_every_byte:
  "(\<exists>fr. write_samples 8 [b] [] = (None, fr) \<and> decoded_bytes 1 fr = Inr [b]) \<and>
   (\<exists>fr. write_samples 16 [b] [] = (None, fr) \<and> decoded_bytes 2 fr = Inr [b]) \<and>
   (\<exists>fr. write_samples 32 [b] [] = (None, fr) \<and> decoded_bytes 4 fr = Inr [b]) \<and>
   (uint b - 128) * 16777216 div 16777216 + 128 = uint b"
proof -
  have w8: "write_samples 8 [b] [] = (None, [b])"
    by (subst write_samples_8) simp
  have "decoded_bytes 1 [b] = Inr [b]"
    using py_bytes_uint[of "[b]"] by (simp add: decoded_bytes_def values_1_uint)
  with w8 have d8: "\<exists>fr. write_samples 8 [b] [] = (None, fr) \<and> decoded_bytes 1 fr = Inr [b]"
    by blast
  obtain f16 where f16: "write_samples 16 [b] [] = (None, f16)" "values_2 f16 = map uint [b]"
    using write_samples_16[of "[b]" "[]"] by auto
  have d16: "\<exists>fr. write_samples 16 [b] [] = (None, fr) \<and> decoded_bytes 2 fr = Inr [b]"
    using f16 py_bytes_uint[of "[b]"] by (simp add: decoded_bytes_def)
  obtain f32 where f32: "write_samples 32 [b] [] = (None, f32)" "values_4 f32 = map uint [b]"
    using write_samples_32[of "[b]" "[]"] by auto
  have d32: "\<exists>fr. write_samples 32 [b] [] = (None, fr) \<and> decoded_bytes 4 fr = Inr [b]"
    using f32 py_bytes_uint[of "[b]"] by (simp add: decoded_bytes_def)
  have ar: "(uint b - 128) * 16777216 div 16777216 + 128 = uint b" by simp
  from d8 d16 d32 ar show ?thesis by blast
qed

section \<open>Base64: decoding undoes encoding\<close>

lemma sextet_join1: "(b::nat) < 256 \<Longrightarrow> a div 4 * 4 + (a mod 4 * 16 + b div 16) div 16 = a"
proof -
  assume b: "b < 256"
  have 1: "b div 16 < 16" using b by simp
  have "(a mod 4 * 16 + b div 16) div 16 = a mod 4 + b div 16 div 16" by simp
  also have "\<dots> = a mod 4" using 1 by simp
  finally have x: "(a mod 4 * 16 + b div 16) div 16 = a mod 4" .
  show ?thesis unfolding x by simp
qed

lemma sextet_join2:
  "(b::nat) < 256 \<Longrightarrow> c < 256 \<Longrightarrow>
   (a mod 4 * 16 + b div 16) mod 16 * 16 + (b mod 16 * 4 + c div 64) div 4 = b"
proof -
  assume b: "b < 256" and c: "c < 256"
  have 1: "b div 16 < 16" using b by simp
  have "(a mod 4 * 16 + b div 16) mod 16 = b div 16 mod 16" by simp
  also have "\<dots> = b div 16" using 1 by simp
  finally have x: "(a mod 4 * 16 + b div 16) mod 16 = b div 16" .
  have 2: "c div 64 < 4" using c by simp
  have "(b mod 16 * 4 + c div 64) div 4 = b mod 16 + c div 64 div 4" by simp
  also have "\<dots> = b mod 16" using 2 by simp
  finally have y: "(b mod 16 * 4 + c div 64) div 4 = b mod 16" .
  show ?thesis unfolding x y by simp
qed

lemma sextet_join3:
  "(c::nat) < 256 \<Longrightarrow> (b mod 16 * 4 + c div 64) mod 4 * 64 + c mod 64 = c"
proof -
  assume c: "c < 256"
  have 2: "c div 64 < 4" using c by simp
  have "(b mod 16 * 4 + c div 64) mod 4 = c div 64 mod 4" by simp
  also have "\<dots> = c div 64" using 2 by simp
  finally have x: "(b mod 16 * 4 + c div 64) mod 4 = c div 64" .
  show ?thesis unfolding x by simp
qed

lemma mod_times_bound: "(a::nat) mod 4 * 16 \<le> 48" "(b::nat) mod 16 * 4 \<le> 60"
proof -
  have "a mod 4 < 4" by simp
  then have "a mod 4 \<le> 3" by linarith
  then show "a mod 4 * 16 \<le> 48" by simp
  have "b mod 16 < 16" by simp
  then have "b mod 16 \<le> 15" by linarith
  then show "b mod 16 * 4 \<le> 60" by simp
qed

lemma sextet_bounds:
  "(a::nat) < 256 \<Longrightarrow> a div 4 < 64"
  "(b::nat) < 256 \<Longrightarrow> a mod 4 * 16 + b div 16 < 64"
  "(c::nat) < 256 \<Longrightarrow> b mod 16 * 4 + c div 64 < 64"
  "(c::nat) mod 64 < 64" "a mod 4 * 16 < 64" "b mod 16 * 4 < 64"
proof -
  show "a < 256 \<Longrightarrow> a div 4 < 64" by simp
  show "b < 256 \<Longrightarrow> a mod 4 * 16 + b div 16 < 64"
  proof -
    assume "b < 256" then have "b div 16 < 16" by simp
    with mod_times_bound(1)[of a] show ?thesis by linarith
  qed
  show "c < 256 \<Longrightarrow> b mod 16 * 4 + c div 64 < 64"
  proof -
    assume "c < 256" then have "c div 64 < 4" by simp
    with mod_times_bound(2)[of b] show ?thesis by linarith
  qed
  show "c mod 64 < 64" by simp
  show "a mod 4 * 16 < 64" using mod_times_bound(1)[of a] by linarith
  show "b mod 16 * 4 < 64" using mod_times_bound(2)[of b] by linarith
qed


lemma a2b_b2a: "s < 64 \<Longrightarrow> a2b_char (b2a_char s) = Some s"
  by (auto simp: a2b_char_def b2a_char_def unat_of_nat Let_def)

lemma a2b_pad: "a2b_char 61 = None"
  by (simp add: a2b_char_def)

lemma b2a_not_pad: "s < 64 \<Longrightarrow> b2a_char s \<noteq> 61"
  using a2b_b2a[of s] a2b_pad by auto

lemma a2b_loop_sextet:
  assumes "s < 64"
  shows "a2b_loop (b2a_char s # cs) quad_pos leftchar pads out =
     (if quad_pos = 0 then a2b_loop cs 1 s 0 out
      else if quad_pos = 1 then
        a2b_loop cs 2 (s mod 16) 0 (out @ [of_nat (leftchar * 4 + s div 16)])
      else if quad_pos = 2 then
        a2b_loop cs 3 (s mod 4) 0 (out @ [of_nat (leftchar * 16 + s div 4)])
      else a2b_loop cs 0 0 0 (out @ [of_nat (leftchar * 64 + s)]))"
  using assms by (simp add: a2b_b2a b2a_not_pad)

lemma a2b_loop_group:
  assumes "s1 < 64" "s2 < 64" "s3 < 64" "s4 < 64"
  shows "a2b_loop (b2a_char s1 # b2a_char s2 # b2a_char s3 # b2a_char s4 # cs) 0 lc p out =
         a2b_loop cs 0 0 0 (out @ [of_nat (s1 * 4 + s2 div 16), of_nat (s2 mod 16 * 16 + s3 div 4),
                                   of_nat (s3 mod 4 * 64 + s4)])"
  using assms by (simp add: a2b_loop_sextet del: a2b_loop.simps)

lemma unat_byte_less: "unat (a::byte) < 256"
  using unsigned_less[of a, where ?'a = nat] by simp

lemma a2b_loop_b64encode:
  "a2b_loop (b64encode x) 0 lc p out = Inr (out @ x)"
proof (induction x arbitrary: lc p out rule: b64encode.induct)
  case (1 a b c rest)
  let ?s1 = "unat a div 4" and ?s2 = "unat a mod 4 * 16 + unat b div 16"
  let ?s3 = "unat b mod 16 * 4 + unat c div 64" and ?s4 = "unat c mod 64"
  have bs: "?s1 < 64" "?s2 < 64" "?s3 < 64" "?s4 < 64"
    using sextet_bounds unat_byte_less by blast+
  have j: "?s1 * 4 + ?s2 div 16 = unat a" "?s2 mod 16 * 16 + ?s3 div 4 = unat b"
      "?s3 mod 4 * 64 + ?s4 = unat c"
    using sextet_join1[OF unat_byte_less] sextet_join2[OF unat_byte_less unat_byte_less]
      sextet_join3[OF unat_byte_less] by blast+
  have "a2b_loop (b64encode (a # b # c # rest)) 0 lc p out =
        a2b_loop (b64encode rest) 0 0 0 (out @ [of_nat (unat a), of_nat (unat b), of_nat (unat c)])"
    using a2b_loop_group[OF bs, of "b64encode rest" lc p out] unfolding j by simp
  also have "\<dots> = Inr ((out @ [of_nat (unat a), of_nat (unat b), of_nat (unat c)]) @ rest)"
    by (rule "1.IH")
  finally show ?case by simp
next
  case (2 a b)
  let ?s1 = "unat a div 4" and ?s2 = "unat a mod 4 * 16 + unat b div 16"
  let ?s3 = "unat b mod 16 * 4"
  have bs: "?s1 < 64" "?s2 < 64" "?s3 < 64"
    using sextet_bounds unat_byte_less by blast+
  have j: "?s1 * 4 + ?s2 div 16 = unat a" "?s2 mod 16 * 16 + ?s3 div 4 = unat b"
    using sextet_join1[OF unat_byte_less] sextet_join2[OF unat_byte_less, of 0 "unat a" ] by simp_all
  show ?case using bs j by (simp add: a2b_loop_sextet del: a2b_loop.simps) simp
next
  case (3 a)
  let ?s1 = "unat a div 4" and ?s2 = "unat a mod 4 * 16"
  have bs: "?s1 < 64" "?s2 < 64"
    using sextet_bounds unat_byte_less by blast+
  have j: "?s1 * 4 + ?s2 div 16 = unat a"
    using sextet_join1[of 0 "unat a"] by simp
  show ?case using bs j by (simp add: a2b_loop_sextet del: a2b_loop.simps) simp
next
  case 4
  show ?case by simp
qed

lemma b64decode_b64encode: "b64decode (b64encode x) = Inr x"
  by (simp add: b64decode_def a2b_loop_b64encode)

section \<open>Searching the header\<close>

lemma length_header: "length header = 13"
  by (simp add: header_def)

lemma header_neq_Nil: "header \<noteq> []"
  using length_header by auto

lemma take_prefix_Cons: "sub @ post = a # list \<Longrightarrow> take (length sub) (a # list) = sub"
  by (metis append_eq_conv_conj)

lemma bytes_in_append: "bytes_in sub (pre @ sub @ post)"
proof (induction pre)
  case Nil
  show ?case by (cases "sub @ post") (auto simp: take_prefix_Cons)
next
  case (Cons p pre)
  then show ?case by simp
qed

lemma bytes_in_split: "bytes_in sub s \<Longrightarrow> \<exists>pre post. s = pre @ sub @ post"
proof (induction s)
  case Nil
  then show ?case by simp
next
  case (Cons y ys)
  show ?case
  proof (cases "take (length sub) (y # ys) = sub")
    case True
    then have "y # ys = [] @ sub @ drop (length sub) (y # ys)"
      by (metis append_Nil append_take_drop_id)
    then show ?thesis by blast
  next
    case False
    with Cons.prems have "bytes_in sub ys" by simp
    then obtain pre post where "ys = pre @ sub @ post" using Cons.IH by blast
    then have "y # ys = (y # pre) @ sub @ post" by simp
    then show ?thesis by blast
  qed
qed

lemma bytes_in_iff: "bytes_in sub s \<longleftrightarrow> (\<exists>pre post. s = pre @ sub @ post)"
  using bytes_in_split bytes_in_append by blast

lemma bytes_find_from_first:
  "(\<forall>j<length pre. take (length sub) (drop j (pre @ sub @ post)) \<noteq> sub) \<Longrightarrow>
   bytes_find_from sub (pre @ sub @ post) i = i + int (length pre)"
proof (induction pre arbitrary: i)
  case Nil
  show ?case by (cases "sub @ post") (auto simp: take_prefix_Cons)
next
  case (Cons p pre)
  have 0: "take (length sub) ((p # pre) @ sub @ post) \<noteq> sub"
    using Cons.prems[rule_format, of 0] by simp
  have "\<forall>j<length pre. take (length sub) (drop j (pre @ sub @ post)) \<noteq> sub"
  proof (intro allI impI)
    fix j assume "j < length pre"
    then have "Suc j < length (p # pre)" by simp
    from Cons.prems[rule_format, OF this] show "take (length sub) (drop j (pre @ sub @ post)) \<noteq> sub"
      by simp
  qed
  then have "bytes_find_from sub (pre @ sub @ post) (i + 1) = (i + 1) + int (length pre)"
    by (rule Cons.IH)
  then show ?case using 0 by simp
qed

lemma slice_from_nonneg: "slice_from (pre @ post) (int (length pre)) = post"
  by (simp add: slice_from_def)

lemma wav_to_text_decoded:
  assumes "decoded_bytes (sampwidth w) (readframes w (getnframes w)) = Inr bs"
  shows "wav_to_text w out fs =
     (if bytes_in header bs then
        (case b64decode (slice_from bs (bytes_find header bs + 13)) of
           Inl e \<Rightarrow> (Inr Error_decoding_data, fs)
         | Inr original_data \<Rightarrow> (Inr Successfully_converted, fs(out \<mapsto> RawFile original_data)))
      else (Inr No_encoded_text_data, fs))"
  using assms by (simp add: wav_to_text_def Let_def length_header)

lemma wav_to_text_first:
  assumes d: "decoded_bytes (sampwidth w) (readframes w (getnframes w)) = Inr (pre @ header @ post)"
    and f: "\<forall>j<length pre. take (length header) (drop j (pre @ header @ post)) \<noteq> header"
  shows "wav_to_text w out fs =
     (case b64decode post of
        Inl e \<Rightarrow> (Inr Error_decoding_data, fs)
      | Inr original_data \<Rightarrow> (Inr Successfully_converted, fs(out \<mapsto> RawFile original_data)))"
proof -
  have i: "bytes_find header (pre @ header @ post) = int (length pre)"
    using bytes_find_from_first[OF f, of 0] by (simp add: bytes_find_def)
  have "slice_from (pre @ header @ post) (int (length pre) + 13) = post"
    using slice_from_nonneg[of "pre @ header" post] by (simp add: length_header)
  then show ?thesis
    using wav_to_text_decoded[OF d, of out fs] i bytes_in_append[of header pre post] by simp
qed

lemma readframes_whole:
  assumes "length (frames w) = n * (nchannels w * sampwidth w)" "0 < nchannels w * sampwidth w"
  shows "readframes w (getnframes w) = frames w"
  using assms by (simp add: readframes_def getnframes_def)

section \<open>Encoding, then decoding\<close>

lemma encoded_frames:
  assumes "depth = 8 \<or> depth = 16 \<or> depth = 32"
  shows "\<exists>fr. write_samples depth xs [] = (None, fr) \<and>
              decoded_bytes (nat (depth div 8)) fr = Inr xs \<and>
              length fr = length xs * (1 * nat (depth div 8))"
proof -
  consider "depth = 8" | "depth = 16" | "depth = 32" using assms by blast
  then show ?thesis
  proof cases
    case 1
    have "write_samples 8 xs [] = (None, xs)"
      by (subst write_samples_8) simp
    moreover have "decoded_bytes 1 xs = Inr xs"
      by (simp add: decoded_bytes_def values_1_uint py_bytes_uint)
    ultimately show ?thesis using 1 by simp
  next
    case 2
    obtain fr where "write_samples 16 xs [] = (None, fr)" "values_2 fr = map uint xs"
        "length fr = 2 * length xs"
      using write_samples_16[of xs "[]"] by auto
    moreover from this have "decoded_bytes 2 fr = Inr xs"
      by (simp add: decoded_bytes_def py_bytes_uint)
    ultimately show ?thesis using 2 by simp
  next
    case 3
    obtain fr where "write_samples 32 xs [] = (None, fr)" "values_4 fr = map uint xs"
        "length fr = 4 * length xs"
      using write_samples_32[of xs "[]"] by auto
    moreover from this have "decoded_bytes 4 fr = Inr xs"
      by (simp add: decoded_bytes_def py_bytes_uint)
    ultimately show ?thesis using 3 by simp
  qed
qed

lemma text_to_wav_supported:
  assumes "depth = 8 \<or> depth = 16 \<or> depth = 32"
  shows "\<exists>w. text_to_wav x wav_file depth fs = (None, fs(wav_file \<mapsto> WavFile w)) \<and>
             nchannels w = 1 \<and> sampwidth w = nat (depth div 8) \<and> framerate w = 44100 \<and>
             decoded_bytes (sampwidth w) (readframes w (getnframes w)) = Inr (header @ b64encode x)"
proof -
  obtain fr where fr: "write_samples depth (header @ b64encode x) [] = (None, fr)"
      "decoded_bytes (nat (depth div 8)) fr = Inr (header @ b64encode x)"
      "length fr = length (header @ b64encode x) * (1 * nat (depth div 8))"
    using encoded_frames[OF assms] by blast
  let ?w = "\<lparr>nchannels = 1, sampwidth = nat (depth div 8), framerate = 44100, frames = fr\<rparr>"
  have width: "\<not> (depth div 8 < 1 \<or> 4 < depth div 8)" using assms by auto
  have t: "text_to_wav x wav_file depth fs = (None, fs(wav_file \<mapsto> WavFile ?w))"
    using fr(1) width by (simp add: text_to_wav_def Let_def)
  have pos: "0 < nchannels ?w * sampwidth ?w" using assms by auto
  have "length (frames ?w) = length (header @ b64encode x) * (nchannels ?w * sampwidth ?w)"
    using fr(3) by simp
  then have "readframes ?w (getnframes ?w) = frames ?w"
    using pos by (rule readframes_whole)
  then have "decoded_bytes (sampwidth ?w) (readframes ?w (getnframes ?w)) = Inr (header @ b64encode x)"
    using fr(2) by simp
  with t show ?thesis by (intro exI[of _ ?w]) simp
qed

text \<open>
  Claim C1. For every byte sequence \<open>x\<close> (the empty one included) and every depth in
  \<open>{8, 16, 32}\<close>, encoding \<open>x\<close> at that depth returns without an exception and writes a
  WAV file, and decoding that WAV file writes exactly \<open>x\<close> to the output path.
\<close>

theorem round_trip:
  assumes "depth \<in> {8, 16, 32}"
  shows "\<exists>w. text_to_wav x wav_file depth fs = (None, fs(wav_file \<mapsto> WavFile w)) \<and>
             wav_to_text w output_text_file fs' =
               (Inr Successfully_converted, fs'(output_text_file \<mapsto> RawFile x))"
proof -
  from assms have "depth = 8 \<or> depth = 16 \<or> depth = 32" by simp
  then obtain w where w: "text_to_wav x wav_file depth fs = (None, fs(wav_file \<mapsto> WavFile w))"
      "decoded_bytes (sampwidth w) (readframes w (getnframes w)) = Inr ([] @ header @ b64encode x)"
    using text_to_wav_supported[of depth x wav_file fs] by auto
  have "\<forall>j<length ([]::bytes). take (length header) (drop j ([] @ header @ b64encode x)) \<noteq> header"
    by simp
  from wav_to_text_first[OF w(2) this, of output_text_file fs']
  have "wav_to_text w output_text_file fs' =
          (Inr Successfully_converted, fs'(output_text_file \<mapsto> RawFile x))"
    by (simp add: b64decode_b64encode)
  with w(1) show ?thesis by blast
qed

theorem round_trip_witness:
  "(16::int) \<in> {8, 16, 32} \<and>
   (\<exists>w. text_to_wav [72, 105] ''in.wav'' 16 Map.empty = (None, [''in.wav'' \<mapsto> WavFile w]) \<and>
        wav_to_text w ''out.txt'' Map.empty =
          (Inr Successfully_converted, [''out.txt'' \<mapsto> RawFile [72, 105]]))"
  using round_trip[of 16 "[72, 105]" "''in.wav''" Map.empty "''out.txt''" Map.empty] by simp

text \<open>
  Claim C9. Encoding the five bytes \<^verbatim>\<open>Hello\<close> at depth 16 writes a WAV file whose
  inverse-scaled byte stream is exactly \<^verbatim>\<open>ENCODED_TEXT:SGVsbG8=\<close>, and decoding it writes
  exactly \<^verbatim>\<open>Hello\<close>.
\<close>

theorem hello_scenario:
  "\<exists>w. text_to_wav (map of_char ''Hello'') wav_file 16 fs = (None, fs(wav_file \<mapsto> WavFile w)) \<and>
       decoded_bytes (sampwidth w) (readframes w (getnframes w)) =
         Inr (map of_char ''ENCODED_TEXT:SGVsbG8='') \<and>
       wav_to_text w output_text_file fs' =
         (Inr Successfully_converted, fs'(output_text_file \<mapsto> RawFile (map of_char ''Hello'')))"
proof -
  let ?x = "map of_char ''Hello'' :: bytes"
  obtain w where w: "text_to_wav ?x wav_file 16 fs = (None, fs(wav_file \<mapsto> WavFile w))"
      "decoded_bytes (sampwidth w) (readframes w (getnframes w)) = Inr ([] @ header @ b64encode ?x)"
    using text_to_wav_supported[of 16 ?x wav_file fs] by auto
  have e: "b64encode ?x = map of_char ''SGVsbG8=''"
    by (simp add: b2a_char_def)
  have h: "header @ b64encode ?x = map of_char ''ENCODED_TEXT:SGVsbG8=''"
    unfolding e by (simp add: header_def)
  have "\<forall>j<length ([]::bytes). take (length header) (drop j ([] @ header @ b64encode ?x)) \<noteq> header"
    by simp
  from wav_to_text_first[OF w(2) this, of output_text_file fs']
  have "wav_to_text w output_text_file fs' =
          (Inr Successfully_converted, fs'(output_text_file \<mapsto> RawFile ?x))"
    by (simp only: b64decode_b64encode sum.case)
  moreover have "decoded_bytes (sampwidth w) (readframes w (getnframes w)) =
         Inr (map of_char ''ENCODED_TEXT:SGVsbG8='')"
    using w(2) h by simp
  ultimately show ?thesis using w(1) by blast
qed

section \<open>Inverse scaling of arbitrary samples\<close>

lemma py_bytes_single: "0 \<le> c \<Longrightarrow> c < 256 \<Longrightarrow> py_bytes [c] = Inr [word_of_int c]"
  by (simp add: py_bytes_def)

text \<open>
  Claim C5, as stated, fails. The sample \<open>-1\<close> of a 16-bit WAV is the bytes \<open>FF FF\<close>. The
  decoder recovers 127 from it, since \<^verbatim>\<open>//\<close> rounds toward minus infinity; division
  truncating toward zero would give 128.
\<close>

theorem truncating_division_counterexample:
  "pack_h (- 1) = Inr [255, 255] \<and> decoded_bytes 2 [255, 255] = Inr [127] \<and>
   py_bytes [truncating_inverse_scale 256 (unpack_h 255 255)] = Inr [128]"
  by (simp add: pack_h_def decoded_bytes_def unpack_h_def py_bytes_def
      truncating_inverse_scale_def signed_divide_int_def)

text \<open>
  Claim C5, amended. For every sample value of the signed 16-bit range, read from a WAV
  with sample width 2, the decoder recovers \<open>clamp(0, 255, sample // 256 + 128)\<close> where
  \<^verbatim>\<open>//\<close> is floor division (rounding toward minus infinity); and the same with the
  divisor 16777216 for every sample value of the signed 32-bit range and sample width 4.
\<close>

theorem floor_division_inverse_scale:
  assumes "- 32768 \<le> v" "v \<le> 32767" "- 2147483648 \<le> u" "u \<le> 2147483647"
  shows "(\<exists>fr. pack_h v = Inr fr \<and>
            decoded_bytes 2 fr = Inr [word_of_int (min 255 (max 0 (v div 256 + 128)))]) \<and>
         (\<exists>fr. pack_i u = Inr fr \<and>
            decoded_bytes 4 fr = Inr [word_of_int (min 255 (max 0 (u div 16777216 + 128)))])"
proof -
  let ?c = "min 255 (max 0 (v div 256 + 128))"
  let ?d = "min 255 (max 0 (u div 16777216 + 128))"
  have c: "0 \<le> ?c" "?c < 256" by simp_all
  have d: "0 \<le> ?d" "?d < 256" by simp_all
  have "decoded_bytes 2 [word_of_int v, word_of_int (v div 256)] = py_bytes [?c]"
    using unpack_h_pack[OF assms(1,2)] by (simp add: decoded_bytes_def)
  then have 1: "decoded_bytes 2 [word_of_int v, word_of_int (v div 256)] = Inr [word_of_int ?c]"
    using py_bytes_single[OF c] by simp
  have "decoded_bytes 4 [word_of_int u, word_of_int (u div 256), word_of_int (u div 65536),
          word_of_int (u div 16777216)] = py_bytes [?d]"
    using unpack_i_pack[OF assms(3,4)] by (simp add: decoded_bytes_def)
  then have 2: "decoded_bytes 4 [word_of_int u, word_of_int (u div 256), word_of_int (u div 65536),
          word_of_int (u div 16777216)] = Inr [word_of_int ?d]"
    using py_bytes_single[OF d] by simp
  have p: "pack_h v = Inr [word_of_int v, word_of_int (v div 256)]"
    using assms by (simp add: pack_h_def)
  have q: "pack_i u = Inr [word_of_int u, word_of_int (u div 256), word_of_int (u div 65536),
          word_of_int (u div 16777216)]"
    using assms by (simp add: pack_i_def)
  from 1 2 p q show ?thesis by blast
qed

theorem floor_division_inverse_scale_witness:
  "(- 32768 \<le> (- 1 :: int) \<and> (- 1 :: int) \<le> 32767 \<and>
    - 2147483648 \<le> (- 16777217 :: int) \<and> (- 16777217 :: int) \<le> 2147483647) \<and>
   (\<exists>fr. pack_h (- 1) = Inr fr \<and> decoded_bytes 2 fr = Inr [127]) \<and>
   (\<exists>fr. pack_i (- 16777217) = Inr fr \<and> decoded_bytes 4 fr = Inr [126])"
  using floor_division_inverse_scale[of "- 1" "- 16777217"] by simp

section \<open>Bit depths and sample widths outside the supported ones\<close>

lemma write_samples_unsupported:
  "bits \<noteq> 8 \<Longrightarrow> bits \<noteq> 16 \<Longrightarrow> bits \<noteq> 32 \<Longrightarrow> write_samples bits xs written = (None, written)"
  by (induction xs) simp_all

text \<open>
  Claim C3, as stated, fails. At depth 12 the encoder raises nothing and writes an output
  file: a WAV file of sample width 1 that holds no frame.
\<close>

theorem unsupported_depth_counterexample:
  "text_to_wav [] ''out.wav'' 12 Map.empty =
     (None, [''out.wav'' \<mapsto> WavFile \<lparr>nchannels = 1, sampwidth = 1, framerate = 44100, frames = []\<rparr>])"
  by (simp add: text_to_wav_def Let_def write_samples_unsupported)

text \<open>
  Claim C3, amended. For every payload and every bit depth outside \<open>{8, 16, 32}\<close> the
  encoder has no check of the depth. When \<open>depth // 8\<close> is between 1 and 4 it returns
  without an exception and leaves a WAV file of that sample width holding no frame.
  Otherwise the WAV writer rejects the sample width with \<^verbatim>\<open>wave.Error\<close>, and the output
  file, already created, is left empty.
\<close>

theorem unsupported_depth_behaviour:
  assumes "depth \<notin> {8, 16, 32}"
  shows "text_to_wav x wav_file depth fs =
     (if 1 \<le> depth div 8 \<and> depth div 8 \<le> 4
      then (None, fs(wav_file \<mapsto> WavFile \<lparr>nchannels = 1, sampwidth = nat (depth div 8),
                                           framerate = 44100, frames = []\<rparr>))
      else (Some WaveError, fs(wav_file \<mapsto> RawFile [])))"
proof -
  have "write_samples depth (header @ b64encode x) [] = (None, [])"
    using assms by (intro write_samples_unsupported) simp_all
  then show ?thesis by (auto simp: text_to_wav_def Let_def)
qed

theorem unsupported_depth_behaviour_witness:
  "(12::int) \<notin> {8, 16, 32} \<and> (4::int) \<notin> {8, 16, 32} \<and>
   text_to_wav [72, 105] ''out.wav'' 12 Map.empty =
     (None, [''out.wav'' \<mapsto> WavFile \<lparr>nchannels = 1, sampwidth = 1, framerate = 44100, frames = []\<rparr>]) \<and>
   text_to_wav [72, 105] ''out.wav'' 4 Map.empty = (Some WaveError, [''out.wav'' \<mapsto> RawFile []])"
  using unsupported_depth_behaviour[of 12 "[72, 105]" "''out.wav''" Map.empty]
    unsupported_depth_behaviour[of 4 "[72, 105]" "''out.wav''" Map.empty] by simp

text \<open>
  Claim C4 at a WAV file of sample width 3 (24-bit PCM): no branch assigns
  \<^verbatim>\<open>decoded_bytes\<close>, and the decoder ends with \<^verbatim>\<open>UnboundLocalError\<close> instead of reporting
  that the file holds no encoded text.
\<close>

theorem width3_unbound_local:
  "wav_to_text \<lparr>nchannels = 1, sampwidth = 3, framerate = 44100, frames = [0, 0, 0]\<rparr>
     ''out.txt'' Map.empty = (Inl UnboundLocalError, Map.empty)"
  by (simp add: wav_to_text_def decoded_bytes_def Let_def)

section \<open>Damaged and foreign input\<close>

lemma decoded_bytes_width1: "decoded_bytes 1 raw = Inr raw"
  by (simp add: decoded_bytes_def values_1_uint py_bytes_uint)

lemma mono8_decoded:
  "decoded_bytes (sampwidth \<lparr>nchannels = 1, sampwidth = 1, framerate = r, frames = bs\<rparr>)
     (readframes \<lparr>nchannels = 1, sampwidth = 1, framerate = r, frames = bs\<rparr>
        (getnframes \<lparr>nchannels = 1, sampwidth = 1, framerate = r, frames = bs\<rparr>)) = Inr bs"
  using decoded_bytes_width1[of bs] by (simp add: readframes_def getnframes_def)

text \<open>
  Claim C6, as stated, fails. The bytes \<^verbatim>\<open>SGVs!\<close> are not valid base64: five characters,
  one of them outside the alphabet. After the header they are decoded all the same: the
  decoder drops the \<^verbatim>\<open>!\<close>, reports success and writes \<^verbatim>\<open>Hel\<close>.
\<close>

theorem lenient_base64_counterexample:
  "\<not> rfc4648_base64 (map of_char ''SGVs!'') \<and>
   bytes_in header (map of_char ''ENCODED_TEXT:SGVs!'') \<and>
   wav_to_text \<lparr>nchannels = 1, sampwidth = 1, framerate = 44100,
                 frames = map of_char ''ENCODED_TEXT:SGVs!''\<rparr> ''out.txt'' Map.empty =
     (Inr Successfully_converted, [''out.txt'' \<mapsto> RawFile (map of_char ''Hel'')])"
proof -
  let ?post = "map of_char ''SGVs!'' :: bytes"
  let ?w = "\<lparr>nchannels = 1, sampwidth = 1, framerate = 44100, frames = [] @ header @ ?post\<rparr>"
  have 1: "\<not> rfc4648_base64 ?post" by simp
  have 2: "bytes_in header ([] @ header @ ?post)" by (rule bytes_in_append)
  have d: "decoded_bytes (sampwidth ?w) (readframes ?w (getnframes ?w)) = Inr ([] @ header @ ?post)"
    by (rule mono8_decoded)
  have f: "\<forall>j<length ([]::bytes). take (length header) (drop j ([] @ header @ ?post)) \<noteq> header"
    by simp
  have b: "b64decode ?post = Inr (map of_char ''Hel'')"
    by (simp add: b64decode_def a2b_char_def)
  have 3: "wav_to_text ?w ''out.txt'' Map.empty =
     (Inr Successfully_converted, [''out.txt'' \<mapsto> RawFile (map of_char ''Hel'')])"
    using wav_to_text_first[OF d f, of "''out.txt''" Map.empty] unfolding b by simp
  have h: "[] @ header @ ?post = map of_char ''ENCODED_TEXT:SGVs!''"
    by (simp add: header_def)
  from 1 2 3 show ?thesis unfolding h by blast
qed

text \<open>
  Base64 text that lost its last character, of a payload whose length is not a multiple
  of three (so that the text ended in padding), is rejected by the decoder.
\<close>

lemma b64encode_eq_Nil: "b64encode x = [] \<longleftrightarrow> x = []"
  by (induction x rule: b64encode.induct) simp_all

lemma a2b_loop_truncated:
  "length x mod 3 \<noteq> 0 \<Longrightarrow> a2b_loop (butlast (b64encode x)) 0 lc p out = Inl BinasciiError"
proof (induction x arbitrary: lc p out rule: b64encode.induct)
  case (1 a b c rest)
  let ?s1 = "unat a div 4" and ?s2 = "unat a mod 4 * 16 + unat b div 16"
  let ?s3 = "unat b mod 16 * 4 + unat c div 64" and ?s4 = "unat c mod 64"
  have bs: "?s1 < 64" "?s2 < 64" "?s3 < 64" "?s4 < 64"
    using sextet_bounds unat_byte_less by blast+
  have "length (a # b # c # rest) = length rest + 3" by simp
  then have eq: "length (a # b # c # rest) mod 3 = length rest mod 3"
    by (simp only: mod_add_self2)
  have m: "length rest mod 3 \<noteq> 0" using "1.prems" unfolding eq .
  then have "rest \<noteq> []" by auto
  then have ne: "b64encode rest \<noteq> []" by (simp add: b64encode_eq_Nil)
  have "butlast (b64encode (a # b # c # rest)) =
        b2a_char ?s1 # b2a_char ?s2 # b2a_char ?s3 # b2a_char ?s4 # butlast (b64encode rest)"
    using ne by (simp add: butlast_append)
  then have "a2b_loop (butlast (b64encode (a # b # c # rest))) 0 lc p out =
        a2b_loop (butlast (b64encode rest)) 0 0 0
          (out @ [of_nat (?s1 * 4 + ?s2 div 16), of_nat (?s2 mod 16 * 16 + ?s3 div 4),
                  of_nat (?s3 mod 4 * 64 + ?s4)])"
    using a2b_loop_group[OF bs] by simp
  also have "\<dots> = Inl BinasciiError" using m by (rule "1.IH")
  finally show ?case .
next
  case (2 a b)
  have bs: "unat a div 4 < 64" "unat a mod 4 * 16 + unat b div 16 < 64" "unat b mod 16 * 4 < 64"
    using sextet_bounds unat_byte_less by blast+
  show ?case using bs by (simp add: a2b_loop_sextet del: a2b_loop.simps) simp
next
  case (3 a)
  have bs: "unat a div 4 < 64" "unat a mod 4 * 16 < 64"
    using sextet_bounds unat_byte_less by blast+
  show ?case using bs by (simp add: a2b_loop_sextet del: a2b_loop.simps) simp
next
  case 4
  then show ?case by simp
qed

lemma b64decode_truncated:
  "length x mod 3 \<noteq> 0 \<Longrightarrow> b64decode (butlast (b64encode x)) = Inl BinasciiError"
  by (simp add: b64decode_def a2b_loop_truncated)

lemma truncated_padding_reported:
  assumes "decoded_bytes (sampwidth w) (readframes w (getnframes w)) =
             Inr ([] @ header @ butlast (b64encode x))"
    and "length x mod 3 \<noteq> 0"
  shows "wav_to_text w output_text_file fs = (Inr Error_decoding_data, fs)"
proof -
  have "\<forall>j<length ([]::bytes).
          take (length header) (drop j ([] @ header @ butlast (b64encode x))) \<noteq> header"
    by simp
  from wav_to_text_first[OF assms(1) this, of output_text_file fs]
  show ?thesis by (simp only: b64decode_truncated[OF assms(2)] sum.case)
qed

subsection \<open>The decoder rejects exactly the inputs described\<close>

lemma in_alphabet_pad: "\<not> in_alphabet 61"
  by (simp add: in_alphabet_def a2b_pad)

lemma group_fill_less: "group_fill t < 4"
  by (simp add: group_fill_def)

lemma group_fill_snoc_alpha: "in_alphabet c \<Longrightarrow> group_fill (t @ [c]) = Suc (group_fill t) mod 4"
  by (simp add: group_fill_def mod_Suc_eq)

lemma group_fill_snoc_other: "\<not> in_alphabet c \<Longrightarrow> group_fill (t @ [c]) = group_fill t"
  by (simp add: group_fill_def)

lemma trailing_pad_snoc_alpha: "in_alphabet c \<Longrightarrow> \<not> trailing_pad (t @ [c])"
  by (simp add: trailing_pad_def)

lemma trailing_pad_snoc_pad: "trailing_pad (t @ [61])"
  by (simp add: trailing_pad_def in_alphabet_pad)

lemma trailing_pad_snoc_other:
  "\<not> in_alphabet c \<Longrightarrow> c \<noteq> 61 \<Longrightarrow> trailing_pad (t @ [c]) = trailing_pad t"
  by (auto simp: trailing_pad_def)

lemma closing_pad_Cons:
  "(\<exists>u rest. c # cs = u @ 61 # rest \<and> P (t @ u)) \<longleftrightarrow>
   (c = 61 \<and> P t) \<or> (\<exists>u rest. cs = u @ 61 # rest \<and> P ((t @ [c]) @ u))"
proof
  assume "\<exists>u rest. c # cs = u @ 61 # rest \<and> P (t @ u)"
  then obtain u rest where e: "c # cs = u @ 61 # rest" and p: "P (t @ u)" by blast
  show "(c = 61 \<and> P t) \<or> (\<exists>u rest. cs = u @ 61 # rest \<and> P ((t @ [c]) @ u))"
  proof (cases u)
    case Nil
    with e p show ?thesis by simp
  next
    case (Cons a u')
    with e have "a = c" "cs = u' @ 61 # rest" by simp_all
    moreover from p Cons \<open>a = c\<close> have "P ((t @ [c]) @ u')" by simp
    ultimately show ?thesis by blast
  qed
next
  assume "(c = 61 \<and> P t) \<or> (\<exists>u rest. cs = u @ 61 # rest \<and> P ((t @ [c]) @ u))"
  then show "\<exists>u rest. c # cs = u @ 61 # rest \<and> P (t @ u)"
  proof
    assume "c = 61 \<and> P t"
    then have "c # cs = [] @ 61 # cs \<and> P (t @ [])" by simp
    then show ?thesis by blast
  next
    assume "\<exists>u rest. cs = u @ 61 # rest \<and> P ((t @ [c]) @ u)"
    then obtain u rest where "cs = u @ 61 # rest" "P ((t @ [c]) @ u)" by blast
    then have "c # cs = (c # u) @ 61 # rest \<and> P (t @ (c # u))" by simp
    then show ?thesis by blast
  qed
qed

lemma a2b_loop_alpha:
  assumes "c \<noteq> 61" "a2b_char c = Some v"
  shows "a2b_loop (c # cs) 0 lc p out = a2b_loop cs 1 v 0 out"
    and "a2b_loop (c # cs) 1 lc p out =
           a2b_loop cs 2 (v mod 16) 0 (out @ [of_nat (lc * 4 + v div 16)])"
    and "a2b_loop (c # cs) 2 lc p out =
           a2b_loop cs 3 (v mod 4) 0 (out @ [of_nat (lc * 16 + v div 4)])"
    and "a2b_loop (c # cs) 3 lc p out = a2b_loop cs 0 0 0 (out @ [of_nat (lc * 64 + v)])"
  using assms by simp_all

lemma a2b_loop_only_error: "a2b_loop cs q lc p out = Inl e \<Longrightarrow> e = BinasciiError"
  by (induction cs q lc p out rule: a2b_loop.induct) (auto split: if_splits option.splits)

lemma a2b_loop_rejects:
  assumes "q = group_fill t"
    and "q = 2 \<Longrightarrow> p = 0 \<and> \<not> trailing_pad t \<or> p = 1 \<and> trailing_pad t"
  shows "(a2b_loop cs q lc p out = Inl BinasciiError) =
         (\<not> (\<exists>u rest. cs = u @ 61 # rest \<and> pad_closes (t @ u)) \<and> group_fill (t @ cs) \<noteq> 0)"
  using assms
proof (induction cs arbitrary: t q lc p out)
  case Nil
  then show ?case by simp
next
  case (Cons c cs)
  have q4: "q < 4" using Cons.prems(1) group_fill_less by simp
  have split: "(\<exists>u rest. c # cs = u @ 61 # rest \<and> pad_closes (t @ u)) \<longleftrightarrow>
      (c = 61 \<and> pad_closes t) \<or> (\<exists>u rest. cs = u @ 61 # rest \<and> pad_closes ((t @ [c]) @ u))"
    by (rule closing_pad_Cons)
  have app: "(t @ [c]) @ cs = t @ c # cs" by simp
  show ?case
  proof (cases "c = 61")
    case True
    note pad = True
    have fill': "group_fill (t @ [c]) = q"
      using Cons.prems(1) pad by (simp add: group_fill_snoc_other in_alphabet_pad)
    show ?thesis
    proof (cases "2 \<le> q")
      case True
      show ?thesis
      proof (cases "4 \<le> q + (p + 1)")
        case True
        have "pad_closes t"
        proof (cases "q = 2")
          case True
          with \<open>4 \<le> q + (p + 1)\<close> have "p \<noteq> 0" by simp
          with Cons.prems(2)[OF True] have "trailing_pad t" by blast
          with True Cons.prems(1) show ?thesis by (simp add: pad_closes_def)
        next
          case False
          with \<open>2 \<le> q\<close> q4 have "q = 3" by linarith
          with Cons.prems(1) show ?thesis by (simp add: pad_closes_def)
        qed
        moreover have "a2b_loop (c # cs) q lc p out = Inr out"
          using pad \<open>2 \<le> q\<close> True by simp
        ultimately show ?thesis using split pad by simp
      next
        case False
        with \<open>2 \<le> q\<close> have q2: "q = 2" and p0: "p = 0" by linarith+
        from Cons.prems(2)[OF q2] p0 have nt: "\<not> trailing_pad t" by simp
        have nc: "\<not> pad_closes t"
          using q2 nt Cons.prems(1) by (simp add: pad_closes_def)
        have step: "a2b_loop (c # cs) q lc p out = a2b_loop cs q lc (p + 1) out"
          using pad \<open>2 \<le> q\<close> False by simp
        have ih: "(a2b_loop cs q lc (p + 1) out = Inl BinasciiError) =
            (\<not> (\<exists>u rest. cs = u @ 61 # rest \<and> pad_closes ((t @ [c]) @ u)) \<and>
             group_fill ((t @ [c]) @ cs) \<noteq> 0)"
        proof (rule Cons.IH)
          show "q = group_fill (t @ [c])" using fill' by simp
          show "p + 1 = 0 \<and> \<not> trailing_pad (t @ [c]) \<or> p + 1 = 1 \<and> trailing_pad (t @ [c])"
            using p0 pad trailing_pad_snoc_pad[of t] by simp
        qed
        show ?thesis unfolding step ih split app using nc by simp
      qed
    next
      case False
      then have nc: "\<not> pad_closes t"
        using Cons.prems(1) by (auto simp: pad_closes_def)
      have step: "a2b_loop (c # cs) q lc p out = a2b_loop cs q lc p out"
        using pad False by simp
      have ih: "(a2b_loop cs q lc p out = Inl BinasciiError) =
          (\<not> (\<exists>u rest. cs = u @ 61 # rest \<and> pad_closes ((t @ [c]) @ u)) \<and>
           group_fill ((t @ [c]) @ cs) \<noteq> 0)"
      proof (rule Cons.IH)
        show "q = group_fill (t @ [c])" using fill' by simp
        show "q = 2 \<Longrightarrow> p = 0 \<and> \<not> trailing_pad (t @ [c]) \<or> p = 1 \<and> trailing_pad (t @ [c])"
          using False by simp
      qed
      show ?thesis unfolding step ih split app using nc by simp
    qed
  next
    case False
    note nopad = False
    show ?thesis
    proof (cases "a2b_char c")
      case None
      then have na: "\<not> in_alphabet c" by (simp add: in_alphabet_def)
      have step: "a2b_loop (c # cs) q lc p out = a2b_loop cs q lc p out"
        using nopad None by simp
      have ih: "(a2b_loop cs q lc p out = Inl BinasciiError) =
          (\<not> (\<exists>u rest. cs = u @ 61 # rest \<and> pad_closes ((t @ [c]) @ u)) \<and>
           group_fill ((t @ [c]) @ cs) \<noteq> 0)"
      proof (rule Cons.IH)
        show "q = group_fill (t @ [c])"
          using Cons.prems(1) na by (simp add: group_fill_snoc_other)
        show "q = 2 \<Longrightarrow> p = 0 \<and> \<not> trailing_pad (t @ [c]) \<or> p = 1 \<and> trailing_pad (t @ [c])"
          using Cons.prems(2) trailing_pad_snoc_other[OF na nopad, of t] by simp
      qed
      show ?thesis unfolding step ih split app using nopad by simp
    next
      case (Some v)
      then have al: "in_alphabet c" by (simp add: in_alphabet_def)
      have fill': "group_fill (t @ [c]) = Suc q mod 4"
        using Cons.prems(1) al by (simp add: group_fill_snoc_alpha)
      have nt: "\<not> trailing_pad (t @ [c])" using al by (rule trailing_pad_snoc_alpha)
      have ih: "\<And>q' lc' out'. q' = Suc q mod 4 \<Longrightarrow>
          (a2b_loop cs q' lc' 0 out' = Inl BinasciiError) =
          (\<not> (\<exists>u rest. cs = u @ 61 # rest \<and> pad_closes ((t @ [c]) @ u)) \<and>
           group_fill ((t @ [c]) @ cs) \<noteq> 0)"
      proof -
        fix q' :: nat and lc' :: nat and out' :: bytes
        assume q': "q' = Suc q mod 4"
        show "(a2b_loop cs q' lc' 0 out' = Inl BinasciiError) =
          (\<not> (\<exists>u rest. cs = u @ 61 # rest \<and> pad_closes ((t @ [c]) @ u)) \<and>
           group_fill ((t @ [c]) @ cs) \<noteq> 0)"
        proof (rule Cons.IH)
          show "q' = group_fill (t @ [c])" using q' fill' by simp
          show "q' = 2 \<Longrightarrow> (0::nat) = 0 \<and> \<not> trailing_pad (t @ [c]) \<or> (0::nat) = 1 \<and> trailing_pad (t @ [c])"
            using nt by simp
        qed
      qed
      consider "q = 0" | "q = 1" | "q = 2" | "q = 3" using q4 by linarith
      then show ?thesis
      proof cases
        case 1
        have "a2b_loop (c # cs) q lc p out = a2b_loop cs 1 v 0 out"
          unfolding 1 using nopad Some by (rule a2b_loop_alpha(1))
        moreover have "(1::nat) = Suc q mod 4" using 1 by simp
        ultimately show ?thesis using ih[of 1 v out] split app nopad by simp
      next
        case 2
        have "a2b_loop (c # cs) q lc p out =
                a2b_loop cs 2 (v mod 16) 0 (out @ [of_nat (lc * 4 + v div 16)])"
          unfolding 2 using nopad Some by (rule a2b_loop_alpha(2))
        moreover have "(2::nat) = Suc q mod 4" using 2 by simp
        ultimately show ?thesis
          using ih[of 2 "v mod 16" "out @ [of_nat (lc * 4 + v div 16)]"] split app nopad by simp
      next
        case 3
        have "a2b_loop (c # cs) q lc p out =
                a2b_loop cs 3 (v mod 4) 0 (out @ [of_nat (lc * 16 + v div 4)])"
          unfolding 3 using nopad Some by (rule a2b_loop_alpha(3))
        moreover have "(3::nat) = Suc q mod 4" using 3 by simp
        ultimately show ?thesis
          using ih[of 3 "v mod 4" "out @ [of_nat (lc * 16 + v div 4)]"] split app nopad by simp
      next
        case 4
        have "a2b_loop (c # cs) q lc p out = a2b_loop cs 0 0 0 (out @ [of_nat (lc * 64 + v)])"
          unfolding 4 using nopad Some by (rule a2b_loop_alpha(4))
        moreover have "(0::nat) = Suc q mod 4" using 4 by simp
        ultimately show ?thesis
          using ih[of 0 0 "out @ [of_nat (lc * 64 + v)]"] split app nopad by simp
      qed
    qed
  qed
qed

lemma closing_pad_index:
  "list_ex (\<lambda>i. s ! i = (61::byte) \<and> P (take i s)) [0..<length s] \<longleftrightarrow>
   (\<exists>u rest. s = u @ 61 # rest \<and> P u)"
proof
  assume "list_ex (\<lambda>i. s ! i = 61 \<and> P (take i s)) [0..<length s]"
  then obtain i where i: "i < length s" "s ! i = 61" "P (take i s)"
    by (auto simp: list_ex_iff)
  from i(1) have "s = take i s @ s ! i # drop (Suc i) s"
    by (rule id_take_nth_drop)
  with i(2) have "s = take i s @ 61 # drop (Suc i) s" by simp
  with i(3) show "\<exists>u rest. s = u @ 61 # rest \<and> P u" by blast
next
  assume "\<exists>u rest. s = u @ 61 # rest \<and> P u"
  then obtain u rest where s: "s = u @ 61 # rest" and p: "P u" by blast
  have "length u < length s" "s ! length u = 61" "take (length u) s = u"
    using s by simp_all
  with p have "length u \<in> set [0..<length s] \<and> s ! length u = 61 \<and> P (take (length u) s)"
    by simp
  then show "list_ex (\<lambda>i. s ! i = 61 \<and> P (take i s)) [0..<length s]"
    unfolding list_ex_iff by blast
qed

lemma group_fill_Nil: "group_fill [] = 0"
  by (simp add: group_fill_def)

lemma b64decode_rejects_iff: "(b64decode s = Inl BinasciiError) = lenient_rejects s"
proof -
  have "(a2b_loop s 0 0 0 [] = Inl BinasciiError) =
        (\<not> (\<exists>u rest. s = u @ 61 # rest \<and> pad_closes ([] @ u)) \<and> group_fill ([] @ s) \<noteq> 0)"
    by (rule a2b_loop_rejects) (simp_all add: group_fill_Nil)
  then show ?thesis
    by (simp add: b64decode_def lenient_rejects_def closing_pad_index)
qed

lemma b64decode_accepts: "\<not> lenient_rejects s \<Longrightarrow> \<exists>original_data. b64decode s = Inr original_data"
proof -
  assume n: "\<not> lenient_rejects s"
  show ?thesis
  proof (cases "b64decode s")
    case (Inl e)
    then have "e = BinasciiError" unfolding b64decode_def by (rule a2b_loop_only_error)
    with Inl n show ?thesis using b64decode_rejects_iff by simp
  next
    case (Inr d)
    then show ?thesis by blast
  qed
qed

lemma lenient_rejects_truncated:
  "length x mod 3 \<noteq> 0 \<Longrightarrow> lenient_rejects (butlast (b64encode x))"
  using b64decode_truncated[of x] b64decode_rejects_iff by simp

text \<open>
  Claim C6, amended. Let the header be found in the decoded byte stream, and \<open>post\<close> be
  the bytes after its first occurrence. When the lenient decoder rejects \<open>post\<close>, that
  is, no pad of \<open>post\<close> closes a group and its last group is left unfinished, the decoder
  reports the decoding error and writes no output file: the files are as before. This
  is so for base64 text that lost its last character and with it its padding. In every
  other case, valid base64 or not, the decoder reports success and writes what
  \<^verbatim>\<open>b64decode\<close> returns.
\<close>

theorem corrupt_payload_exactly:
  assumes "decoded_bytes (sampwidth w) (readframes w (getnframes w)) = Inr (pre @ header @ post)"
    and "\<forall>j<length pre. take (length header) (drop j (pre @ header @ post)) \<noteq> header"
  shows "(lenient_rejects post \<longrightarrow>
            wav_to_text w output_text_file fs = (Inr Error_decoding_data, fs)) \<and>
         (post = butlast (b64encode x) \<and> length x mod 3 \<noteq> 0 \<longrightarrow>
            wav_to_text w output_text_file fs = (Inr Error_decoding_data, fs)) \<and>
         (\<not> lenient_rejects post \<longrightarrow>
            (\<exists>original_data. b64decode post = Inr original_data \<and>
               wav_to_text w output_text_file fs =
                 (Inr Successfully_converted, fs(output_text_file \<mapsto> RawFile original_data))))"
proof -
  note r = wav_to_text_first[OF assms, of output_text_file fs]
  have 1: "wav_to_text w output_text_file fs = (Inr Error_decoding_data, fs)"
    if "lenient_rejects post"
  proof -
    from that have "b64decode post = Inl BinasciiError" using b64decode_rejects_iff by simp
    with r show ?thesis by simp
  qed
  have 2: "wav_to_text w output_text_file fs = (Inr Error_decoding_data, fs)"
    if "post = butlast (b64encode x) \<and> length x mod 3 \<noteq> 0"
  proof -
    from that have "lenient_rejects post" using lenient_rejects_truncated by blast
    then show ?thesis by (rule 1)
  qed
  have 3: "\<exists>original_data. b64decode post = Inr original_data \<and>
             wav_to_text w output_text_file fs =
               (Inr Successfully_converted, fs(output_text_file \<mapsto> RawFile original_data))"
    if "\<not> lenient_rejects post"
  proof -
    from that obtain d where d: "b64decode post = Inr d" using b64decode_accepts by blast
    with r have "wav_to_text w output_text_file fs =
        (Inr Successfully_converted, fs(output_text_file \<mapsto> RawFile d))" by simp
    with d show ?thesis by blast
  qed
  from 1 2 3 show ?thesis by blast
qed

theorem corrupt_payload_exactly_witness:
  "decoded_bytes 1 (map of_char ''xENCODED_TEXT:SGVsbG8'') =
     Inr ([120] @ header @ map of_char ''SGVsbG8'') \<and>
   length [120::byte] = 1 \<and>
   take (length header) (drop 0 ([120] @ header @ map of_char ''SGVsbG8'')) \<noteq> header \<and>
   lenient_rejects (map of_char ''SGVsbG8'') \<and>
   map of_char ''SGVsbG8'' = butlast (b64encode (map of_char ''Hello'')) \<and>
   length (map of_char ''Hello'' :: bytes) mod 3 \<noteq> 0 \<and>
   wav_to_text \<lparr>nchannels = 1, sampwidth = 1, framerate = 44100,
                 frames = map of_char ''xENCODED_TEXT:SGVsbG8''\<rparr> ''out.txt''
       [''out.txt'' \<mapsto> RawFile [7]] =
     (Inr Error_decoding_data, [''out.txt'' \<mapsto> RawFile [7]]) \<and>
   decoded_bytes 1 (map of_char ''ENCODED_TEXT:SGV=s!'') =
     Inr ([] @ header @ map of_char ''SGV=s!'') \<and>
   \<not> lenient_rejects (map of_char ''SGV=s!'') \<and>
   wav_to_text \<lparr>nchannels = 1, sampwidth = 1, framerate = 44100,
                 frames = map of_char ''ENCODED_TEXT:SGV=s!''\<rparr> ''out.txt'' Map.empty =
     (Inr Successfully_converted, [''out.txt'' \<mapsto> RawFile (map of_char ''He'')])"
proof -
  let ?pa = "map of_char ''SGVsbG8'' :: bytes"
  let ?a = "[120] @ header @ ?pa"
  let ?wa = "\<lparr>nchannels = 1, sampwidth = 1, framerate = 44100, frames = ?a\<rparr>"
  let ?pb = "map of_char ''SGV=s!'' :: bytes"
  let ?b = "[] @ header @ ?pb"
  let ?wb = "\<lparr>nchannels = 1, sampwidth = 1, framerate = 44100, frames = ?b\<rparr>"
  let ?x = "map of_char ''Hello'' :: bytes"
  have ha: "?a = map of_char ''xENCODED_TEXT:SGVsbG8''" by (simp add: header_def)
  have hb: "?b = map of_char ''ENCODED_TEXT:SGV=s!''" by (simp add: header_def)
  have da: "decoded_bytes (sampwidth ?wa) (readframes ?wa (getnframes ?wa)) = Inr ?a"
    by (rule mono8_decoded)
  have db: "decoded_bytes (sampwidth ?wb) (readframes ?wb (getnframes ?wb)) = Inr ?b"
    by (rule mono8_decoded)
  have fa: "\<forall>j<length [120::byte]. take (length header) (drop j ?a) \<noteq> header"
    by (simp add: header_def)
  have fb: "\<forall>j<length ([]::bytes). take (length header) (drop j ?b) \<noteq> header"
    by simp
  have ea: "b64decode ?pa = Inl BinasciiError" by (simp add: b64decode_def a2b_char_def)
  then have ra: "lenient_rejects ?pa" using b64decode_rejects_iff by simp
  have eb: "b64decode ?pb = Inr (map of_char ''He'')" by (simp add: b64decode_def a2b_char_def)
  then have rb: "\<not> lenient_rejects ?pb" using b64decode_rejects_iff[of ?pb] by simp
  have tr: "?pa = butlast (b64encode ?x)" by (simp add: b2a_char_def)
  have lx: "length ?x mod 3 \<noteq> 0" by simp
  have wa: "wav_to_text ?wa ''out.txt'' [''out.txt'' \<mapsto> RawFile [7]] =
      (Inr Error_decoding_data, [''out.txt'' \<mapsto> RawFile [7]])"
    using corrupt_payload_exactly[OF da fa, of "''out.txt''" "[''out.txt'' \<mapsto> RawFile [7]]" ?x] ra
    by blast
  have "\<exists>d. b64decode ?pb = Inr d \<and> wav_to_text ?wb ''out.txt'' Map.empty =
      (Inr Successfully_converted, [''out.txt'' \<mapsto> RawFile d])"
    using corrupt_payload_exactly[OF db fb, of "''out.txt''" Map.empty ?x] rb by blast
  then have wb: "wav_to_text ?wb ''out.txt'' Map.empty =
      (Inr Successfully_converted, [''out.txt'' \<mapsto> RawFile (map of_char ''He'')])"
    unfolding eb by simp
  have d1a: "decoded_bytes 1 ?a = Inr ?a" by (rule decoded_bytes_width1)
  have d1b: "decoded_bytes 1 ?b = Inr ?b" by (rule decoded_bytes_width1)
  have f0: "take (length header) (drop 0 ?a) \<noteq> header" using fa by simp
  have l: "length [120::byte] = 1" by simp
  have A: "decoded_bytes 1 (map of_char ''xENCODED_TEXT:SGVsbG8'') = Inr ?a"
    using d1a unfolding ha[symmetric] by simp
  have B: "decoded_bytes 1 (map of_char ''ENCODED_TEXT:SGV=s!'') = Inr ?b"
    using d1b unfolding hb[symmetric] by simp
  have WA: "wav_to_text \<lparr>nchannels = 1, sampwidth = 1, framerate = 44100,
                 frames = map of_char ''xENCODED_TEXT:SGVsbG8''\<rparr> ''out.txt''
       [''out.txt'' \<mapsto> RawFile [7]] =
     (Inr Error_decoding_data, [''out.txt'' \<mapsto> RawFile [7]])"
    using wa unfolding ha .
  have WB: "wav_to_text \<lparr>nchannels = 1, sampwidth = 1, framerate = 44100,
                 frames = map of_char ''ENCODED_TEXT:SGV=s!''\<rparr> ''out.txt'' Map.empty =
     (Inr Successfully_converted, [''out.txt'' \<mapsto> RawFile (map of_char ''He'')])"
    using wb unfolding hb .
  from A l f0 ra tr lx WA B rb WB show ?thesis by blast
qed

subsection \<open>A stream without the header\<close>

text \<open>
  Claim C7. For every decoder input whose inverse-scaled byte stream does not contain the
  header anywhere, the decoder reports that the file holds no encoded text and writes no
  output file: the files, the output path among them, are as before.
\<close>

theorem not_encoded_no_output:
  assumes "decoded_bytes (sampwidth w) (readframes w (getnframes w)) = Inr bs"
    and "\<nexists>pre post. bs = pre @ header @ post"
  shows "wav_to_text w output_text_file fs = (Inr No_encoded_text_data, fs)"
proof -
  have "\<not> bytes_in header bs" using assms(2) bytes_in_iff by blast
  then show ?thesis using wav_to_text_decoded[OF assms(1), of output_text_file fs] by simp
qed

theorem not_encoded_no_output_witness:
  "decoded_bytes 2 [0, 128, 0, 129, 255, 127] = Inr [0, 1, 255] \<and>
   (\<nexists>pre post. [0, 1, 255] = pre @ header @ post) \<and>
   wav_to_text \<lparr>nchannels = 1, sampwidth = 2, framerate = 44100,
                 frames = [0, 128, 0, 129, 255, 127]\<rparr> ''out.txt'' [''out.txt'' \<mapsto> RawFile [7]] =
     (Inr No_encoded_text_data, [''out.txt'' \<mapsto> RawFile [7]])"
proof -
  let ?w = "\<lparr>nchannels = 1, sampwidth = 2, framerate = 44100,
             frames = [0, 128, 0, 129, 255, 127] :: bytes\<rparr>"
  have d0: "decoded_bytes 2 [0, 128, 0, 129, 255, 127] = Inr [0, 1, 255]"
    by (simp add: decoded_bytes_def unpack_h_def py_bytes_def)
  have r: "readframes ?w (getnframes ?w) = [0, 128, 0, 129, 255, 127]"
    by (simp add: readframes_def getnframes_def)
  have d: "decoded_bytes (sampwidth ?w) (readframes ?w (getnframes ?w)) = Inr [0, 1, 255]"
    unfolding r using d0 by simp
  have "\<not> bytes_in header [0, 1, 255]" by (simp add: header_def)
  then have n: "\<nexists>pre post. [0, 1, 255] = pre @ header @ post"
    using bytes_in_iff by blast
  from not_encoded_no_output[OF d n, of "''out.txt''" "[''out.txt'' \<mapsto> RawFile [7]]"] d0 n
  show ?thesis by blast
qed

section \<open>The first occurrence of the header\<close>

text \<open>
  Claim C8. When the header occurs in the decoded byte stream, at index \<open>length pre\<close>
  first and possibly again later, the decoder takes the bytes right after that first
  occurrence as the base64 payload: the outcome is that of decoding \<open>post\<close>.
\<close>

theorem first_magic_occurrence:
  assumes "decoded_bytes (sampwidth w) (readframes w (getnframes w)) = Inr (pre @ header @ post)"
    and "\<forall>j<length pre. take (length header) (drop j (pre @ header @ post)) \<noteq> header"
  shows "wav_to_text w output_text_file fs =
     (case b64decode post of
        Inl e \<Rightarrow> (Inr Error_decoding_data, fs)
      | Inr original_data \<Rightarrow>
          (Inr Successfully_converted, fs(output_text_file \<mapsto> RawFile original_data)))"
  using assms by (rule wav_to_text_first)

theorem first_magic_occurrence_witness:
  "decoded_bytes 1 (map of_char ''xENCODED_TEXT:AENCODED_TEXT:'') =
     Inr ([120] @ header @ map of_char ''AENCODED_TEXT:'') \<and>
   length [120::byte] = 1 \<and>
   take (length header) (drop 0 ([120] @ header @ map of_char ''AENCODED_TEXT:'')) \<noteq> header \<and>
   wav_to_text \<lparr>nchannels = 1, sampwidth = 1, framerate = 44100,
                 frames = map of_char ''xENCODED_TEXT:AENCODED_TEXT:''\<rparr> ''out.txt'' Map.empty =
     (Inr Successfully_converted, [''out.txt'' \<mapsto> RawFile [0, 67, 66, 56, 49, 3, 76, 69, 211]])"
proof -
  let ?post = "map of_char ''AENCODED_TEXT:'' :: bytes"
  let ?bs = "[120] @ header @ ?post"
  let ?w = "\<lparr>nchannels = 1, sampwidth = 1, framerate = 44100, frames = ?bs\<rparr>"
  have h: "?bs = map of_char ''xENCODED_TEXT:AENCODED_TEXT:''"
    by (simp add: header_def)
  have d: "decoded_bytes (sampwidth ?w) (readframes ?w (getnframes ?w)) = Inr ?bs"
    by (rule mono8_decoded)
  have f: "\<forall>j<length [120::byte]. take (length header) (drop j ?bs) \<noteq> header"
    by (simp add: header_def)
  have b: "b64decode ?post = Inr [0, 67, 66, 56, 49, 3, 76, 69, 211]"
    by (simp add: b64decode_def a2b_char_def)
  have r: "wav_to_text ?w ''out.txt'' Map.empty =
     (Inr Successfully_converted, [''out.txt'' \<mapsto> RawFile [0, 67, 66, 56, 49, 3, 76, 69, 211]])"
    using first_magic_occurrence[OF d f, of "''out.txt''" Map.empty] unfolding b by simp
  have d1: "decoded_bytes 1 ?bs = Inr ?bs" by (rule decoded_bytes_width1)
  have f0: "take (length header) (drop 0 ?bs) \<noteq> header" using f by simp
  have l: "length [120::byte] = 1" by simp
  from d1 l f0 r show ?thesis unfolding h[symmetric] by blast
qed

section \<open>The channel count\<close>

lemma readframes_whole_frames:
  assumes "length (frames w) mod (nchannels w * sampwidth w) = 0"
  shows "readframes w (getnframes w) = frames w"
proof -
  have "length (frames w) div (nchannels w * sampwidth w) * (nchannels w * sampwidth w) =
        length (frames w)"
    using assms by (metis add.right_neutral div_mult_mod_eq)
  then show ?thesis by (simp add: readframes_def getnframes_def)
qed

lemma wav_to_text_depends:
  assumes "sampwidth w' = sampwidth w"
    and "readframes w' (getnframes w') = readframes w (getnframes w)"
  shows "wav_to_text w' out fs = wav_to_text w out fs"
  using assms by (simp add: wav_to_text_def Let_def)

text \<open>
  Claim C10. The decoder reads the channel count and never uses it. Its outcome depends
  on the sample width and on the raw bytes of the frames only; and a WAV file of any
  channel count whose data holds whole audio frames is decoded exactly as the mono file
  with the same data: every sample of every channel gives one byte, nothing is rejected.
\<close>

theorem channel_count_unused:
  "(sampwidth w' = sampwidth w \<and> readframes w' (getnframes w') = readframes w (getnframes w)
      \<longrightarrow> wav_to_text w' output_text_file fs = wav_to_text w output_text_file fs) \<and>
   (length (frames w) mod (nchannels w * sampwidth w) = 0
      \<longrightarrow> wav_to_text w output_text_file fs =
          wav_to_text (w\<lparr>nchannels := 1\<rparr>) output_text_file fs)"
proof (intro conjI impI)
  assume "sampwidth w' = sampwidth w \<and> readframes w' (getnframes w') = readframes w (getnframes w)"
  then show "wav_to_text w' output_text_file fs = wav_to_text w output_text_file fs"
    using wav_to_text_depends by blast
next
  assume m: "length (frames w) mod (nchannels w * sampwidth w) = 0"
  let ?m = "w\<lparr>nchannels := 1\<rparr>"
  have "nchannels w * sampwidth w dvd length (frames w)"
    using m by (simp add: dvd_eq_mod_eq_0)
  then have "sampwidth w dvd length (frames w)"
    using dvd_mult_right by blast
  then have "length (frames ?m) mod (nchannels ?m * sampwidth ?m) = 0"
    by (simp add: dvd_eq_mod_eq_0)
  then have "readframes ?m (getnframes ?m) = frames ?m"
    by (rule readframes_whole_frames)
  moreover have "readframes w (getnframes w) = frames w"
    using m by (rule readframes_whole_frames)
  ultimately have "readframes w (getnframes w) = readframes ?m (getnframes ?m)" by simp
  then show "wav_to_text w output_text_file fs = wav_to_text ?m output_text_file fs"
    by (intro wav_to_text_depends) simp_all
qed

theorem channel_count_unused_witness:
  "(sampwidth \<lparr>nchannels = 1, sampwidth = 1, framerate = 44100,
               frames = map of_char ''xENCODED_TEXT:QQ==''\<rparr> =
    sampwidth \<lparr>nchannels = 2, sampwidth = 1, framerate = 44100,
               frames = map of_char ''xENCODED_TEXT:QQ==''\<rparr>) \<and>
   length (map of_char ''xENCODED_TEXT:QQ=='' :: bytes) mod (2 * 1) = 0 \<and>
   wav_to_text \<lparr>nchannels = 2, sampwidth = 1, framerate = 44100,
                 frames = map of_char ''xENCODED_TEXT:QQ==''\<rparr> ''out.txt'' Map.empty =
   wav_to_text \<lparr>nchannels = 1, sampwidth = 1, framerate = 44100,
                 frames = map of_char ''xENCODED_TEXT:QQ==''\<rparr> ''out.txt'' Map.empty \<and>
   wav_to_text \<lparr>nchannels = 2, sampwidth = 1, framerate = 44100,
                 frames = map of_char ''xENCODED_TEXT:QQ==''\<rparr> ''out.txt'' Map.empty =
     (Inr Successfully_converted, [''out.txt'' \<mapsto> RawFile [65]])"
proof -
  let ?post = "map of_char ''QQ=='' :: bytes"
  let ?bs = "[120] @ header @ ?post"
  let ?ws = "\<lparr>nchannels = 2, sampwidth = 1, framerate = 44100, frames = ?bs\<rparr>"
  let ?wm = "\<lparr>nchannels = 1, sampwidth = 1, framerate = 44100, frames = ?bs\<rparr>"
  have h: "?bs = map of_char ''xENCODED_TEXT:QQ==''"
    by (simp add: header_def)
  have l: "length ?bs = 18" by (simp add: length_header)
  have m: "length (frames ?ws) mod (nchannels ?ws * sampwidth ?ws) = 0"
    using l by simp
  have e: "wav_to_text ?ws ''out.txt'' Map.empty = wav_to_text (?ws\<lparr>nchannels := 1\<rparr>) ''out.txt'' Map.empty"
    using channel_count_unused[of ?ws ?ws "''out.txt''" Map.empty] m by blast
  have e': "wav_to_text ?ws ''out.txt'' Map.empty = wav_to_text ?wm ''out.txt'' Map.empty"
    using e by simp
  have d: "decoded_bytes (sampwidth ?wm) (readframes ?wm (getnframes ?wm)) = Inr ?bs"
    by (rule mono8_decoded)
  have f: "\<forall>j<length [120::byte]. take (length header) (drop j ?bs) \<noteq> header"
    by (simp add: header_def)
  have b: "b64decode ?post = Inr [65]"
    by (simp add: b64decode_def a2b_char_def)
  have r: "wav_to_text ?wm ''out.txt'' Map.empty =
     (Inr Successfully_converted, [''out.txt'' \<mapsto> RawFile [65]])"
    using wav_to_text_first[OF d f, of "''out.txt''" Map.empty] unfolding b by simp
  have l': "length (map of_char ''xENCODED_TEXT:QQ=='' :: bytes) mod (2 * 1) = 0" by simp
  from e' r l' show ?thesis unfolding h by simp
qed

end
